theory Spec2Isabelle
  imports Main "HOL-Library.Product_Lexorder"
begin

section \<open>The Minesweeper knowledge engine (minesweeper.py)\<close>

text \<open>
  A cell is the Python tuple \<open>(row, column)\<close> of unbounded integers. A \<open>Sentence\<close>
  object has two fields, the set \<open>cells\<close> and the integer \<open>count\<close>; its constructor
  copies the given cells (\<open>set(cells)\<close>), so no two sentences share a set object, and
  \<open>__eq__\<close> compares both fields by value, which is the equality of the record.
\<close>

type_synonym cell = "int \<times> int"

record sentence =
  cells :: "cell set"
  count :: int

text \<open>
  \<open>known_mines\<close> and \<open>known_safes\<close> return either \<open>self.cells\<close>, the very set object
  the sentence holds, or \<open>set()\<close>, a new object. The result type keeps the two apart:
  what is read through \<open>Self_cells\<close> is whatever the sentence holds at the time of the
  read, so a later \<open>remove\<close> on the sentence shows through it.
\<close>

datatype set_result = Self_cells | New_set "cell set"

fun contents :: "sentence \<Rightarrow> set_result \<Rightarrow> cell set" where
  "contents s Self_cells = cells s"
| "contents s (New_set A) = A"

fun aliased :: "set_result \<Rightarrow> bool" where
  "aliased Self_cells = True"
| "aliased (New_set A) = False"

subsection \<open>Sentence\<close>

text \<open>
  The two queries are written in state-passing style: they return the result together
  with the sentence as the call leaves it. \<open>len(self.cells)\<close> is \<open>card\<close>.
\<close>

definition known_mines :: "sentence \<Rightarrow> set_result \<times> sentence" where
  "known_mines s =
     (let mineCount = count s
      in if int (card (cells s)) = mineCount \<and> mineCount > 0
         then (Self_cells, s)
         else (New_set {}, s))"

definition known_safes :: "sentence \<Rightarrow> set_result \<times> sentence" where
  "known_safes s =
     (let mineCount = count s
      in if mineCount = 0 then (Self_cells, s) else (New_set {}, s))"

text \<open>
  \<open>Sentence.mark_mine\<close> scans \<open>self.cells\<close> for an item equal to \<open>cell\<close>; at the
  first (and only) hit it removes the cell, lowers the count (set to 0 when it is not
  positive) and returns at once, so the set is never iterated after the removal. The
  scan finds the item exactly when the cell is a member. \<open>Sentence.mark_safe\<close> is the
  same without the count.
\<close>

definition Sentence_mark_mine :: "sentence \<Rightarrow> cell \<Rightarrow> sentence" where
  "Sentence_mark_mine s c =
     (if c \<in> cells s
      then s\<lparr>cells := cells s - {c},
             count := (if count s > 0 then count s - 1 else 0)\<rparr>
      else s)"

definition Sentence_mark_safe :: "sentence \<Rightarrow> cell \<Rightarrow> sentence" where
  "Sentence_mark_safe s c =
     (if c \<in> cells s then s\<lparr>cells := cells s - {c}\<rparr> else s)"

text \<open>A sequence of narrowing calls on one sentence.\<close>

datatype narrowing = As_mine cell | As_safe cell

fun narrow :: "sentence \<Rightarrow> narrowing \<Rightarrow> sentence" where
  "narrow s (As_mine c) = Sentence_mark_mine s c"
| "narrow s (As_safe c) = Sentence_mark_safe s c"

fun narrow_all :: "sentence \<Rightarrow> narrowing list \<Rightarrow> sentence" where
  "narrow_all s [] = s"
| "narrow_all s (n # ns) = narrow_all (narrow s n) ns"

text \<open>
  A call leaves the bound \<open>count \<le> |cells|\<close> alone unless it is \<open>mark_safe\<close> of a
  member cell of a sentence whose count has reached the number of its cells.
\<close>

fun keeps_bound :: "sentence \<Rightarrow> narrowing \<Rightarrow> bool" where
  "keeps_bound s (As_mine c) = True"
| "keeps_bound s (As_safe c) = (c \<notin> cells s \<or> count s < int (card (cells s)))"

fun keeps_bound_all :: "sentence \<Rightarrow> narrowing list \<Rightarrow> bool" where
  "keeps_bound_all s [] = True"
| "keeps_bound_all s (n # ns) = (keeps_bound s n \<and> keeps_bound_all (narrow s n) ns)"

subsection \<open>MinesweeperAI\<close>

record ai =
  height :: int
  width :: int
  moves_made :: "cell set"
  mines :: "cell set"
  safes :: "cell set"
  knowledge :: "sentence list"

definition init_ai :: "int \<Rightarrow> int \<Rightarrow> ai" where
  "init_ai h w =
     \<lparr>height = h, width = w, moves_made = {}, mines = {}, safes = {}, knowledge = []\<rparr>"

definition mark_mine :: "ai \<Rightarrow> cell \<Rightarrow> ai" where
  "mark_mine st c =
     st\<lparr>mines := insert c (mines st),
        knowledge := map (\<lambda>sentence. Sentence_mark_mine sentence c) (knowledge st)\<rparr>"

definition mark_safe :: "ai \<Rightarrow> cell \<Rightarrow> ai" where
  "mark_safe st c =
     st\<lparr>safes := insert c (safes st),
        knowledge := map (\<lambda>sentence. Sentence_mark_safe sentence c) (knowledge st)\<rparr>"

text \<open>Steps 1 and 2 of \<open>add_knowledge\<close>: the move is recorded and the cell marked safe.\<close>

definition record_move :: "ai \<Rightarrow> cell \<Rightarrow> ai" where
  "record_move st c = mark_safe (st\<lparr>moves_made := insert c (moves_made st)\<rparr>) c"

text \<open>
  Step 3: the neighbour scan, \<open>x\<close> over \<open>range(0, width)\<close> outside and \<open>y\<close> over
  \<open>range(0, height)\<close> inside, with the three tests of the source in their order.
\<close>

definition neighbour_visit :: "ai \<Rightarrow> cell \<Rightarrow> int \<Rightarrow> int \<Rightarrow> cell set \<Rightarrow> cell set" where
  "neighbour_visit st c x y neighbours =
     (let row = fst c; column = snd c
      in if (y, x) \<notin> safes st
         then (if \<bar>row - y\<bar> = 1 \<and> \<bar>column - x\<bar> = 1 then insert (y, x) neighbours
               else if \<bar>row - y\<bar> = 0 \<and> \<bar>column - x\<bar> = 1 then insert (y, x) neighbours
               else if \<bar>row - y\<bar> = 1 \<and> \<bar>column - x\<bar> = 0 then insert (y, x) neighbours
               else neighbours)
         else neighbours)"

definition neighbours_of :: "ai \<Rightarrow> cell \<Rightarrow> cell set" where
  "neighbours_of st c =
     fold (\<lambda>x. fold (neighbour_visit st c x) [0..height st - 1]) [0..width st - 1] {}"

definition append_sentence :: "ai \<Rightarrow> cell \<Rightarrow> int \<Rightarrow> ai" where
  "append_sentence st c n =
     st\<lparr>knowledge := knowledge st @ [\<lparr>cells = neighbours_of st c, count = n\<rparr>]\<rparr>"

text \<open>
  Step 4, for the sentence at index \<open>i\<close> of \<open>self.knowledge\<close>. The sentences are
  mutated in place while the list is walked, so the body reads the sentence from the
  current state. \<open>tempSentenceCells\<close> is a deep copy, a value; \<open>mines\<close> and \<open>safes\<close>
  may be the sentence's own set, read anew at every membership test. Python leaves the
  iteration order of a set open; the model walks the copy in increasing order, and
  \<open>closure_sentence_any_order\<close> below shows that the order makes no difference.
\<close>

definition holds :: "ai \<Rightarrow> nat \<Rightarrow> set_result \<Rightarrow> cell \<Rightarrow> bool" where
  "holds st i r c = (c \<in> contents (knowledge st ! i) r)"

definition closure_sentence :: "nat \<Rightarrow> ai \<Rightarrow> ai" where
  "closure_sentence i st =
     (let mines_r = fst (known_mines (knowledge st ! i));
          tempSentenceCells = sorted_list_of_set (cells (knowledge st ! i));
          st1 = fold (\<lambda>c s. if holds s i mines_r c then mark_mine s c else s)
                  tempSentenceCells st;
          safes_r = fst (known_safes (knowledge st1 ! i))
      in fold (\<lambda>c s. if holds s i safes_r c then mark_safe s c else s)
           tempSentenceCells st1)"

definition closure_pass :: "ai \<Rightarrow> ai" where
  "closure_pass st = fold closure_sentence [0..<length (knowledge st)] st"

text \<open>Step 5: every ordered pair of the list, the new sentences collected and appended after.\<close>

definition infer :: "sentence \<Rightarrow> sentence \<Rightarrow> sentence list" where
  "infer first second =
     (if cells first \<subseteq> cells second
      then (if cells first = cells second then []
            else if count first = 0 \<or> count second = 0 then []
            else if card (cells first) = 0 \<or> card (cells second) = 0 then []
            else [\<lparr>cells = cells second - cells first, count = count second - count first\<rparr>])
      else [])"

definition tempKnowledge :: "sentence list \<Rightarrow> sentence list" where
  "tempKnowledge ks = concat (map (\<lambda>first. concat (map (infer first) ks)) ks)"

definition derivation_step :: "ai \<Rightarrow> ai" where
  "derivation_step st = st\<lparr>knowledge := knowledge st @ tempKnowledge (knowledge st)\<rparr>"

definition add_knowledge :: "ai \<Rightarrow> cell \<Rightarrow> int \<Rightarrow> ai" where
  "add_knowledge st c n =
     derivation_step (closure_pass (append_sentence (record_move st c) c n))"

fun observe_all :: "ai \<Rightarrow> (cell \<times> int) list \<Rightarrow> ai" where
  "observe_all st [] = st"
| "observe_all st ((c, n) # obs) = observe_all (add_knowledge st c n) obs"

text \<open>
  \<open>make_random_move\<close>: rows \<open>x\<close> over \<open>range(height)\<close>, columns \<open>y\<close> over
  \<open>range(width)\<close>, returning at the first cell that passes the test.
\<close>

fun scan_row :: "ai \<Rightarrow> int \<Rightarrow> int list \<Rightarrow> cell option" where
  "scan_row st x [] = None"
| "scan_row st x (y # ys) =
     (if (x, y) \<notin> moves_made st \<and> (x, y) \<notin> mines st then Some (x, y)
      else scan_row st x ys)"

fun scan_rows :: "ai \<Rightarrow> int list \<Rightarrow> cell option" where
  "scan_rows st [] = None"
| "scan_rows st (x # xs) =
     (case scan_row st x [0..width st - 1] of
        Some c \<Rightarrow> Some c
      | None \<Rightarrow> scan_rows st xs)"

definition make_random_move :: "ai \<Rightarrow> cell option \<times> ai" where
  "make_random_move st = (scan_rows st [0..height st - 1], st)"

subsection \<open>The board, for stating the properties\<close>

definition board :: "ai \<Rightarrow> cell set" where
  "board st = {0..height st - 1} \<times> {0..width st - 1}"

definition chebyshev :: "cell \<Rightarrow> cell \<Rightarrow> int" where
  "chebyshev a b = max \<bar>fst a - fst b\<bar> \<bar>snd a - snd b\<bar>"

definition eligible :: "ai \<Rightarrow> cell \<Rightarrow> bool" where
  "eligible st c = (c \<notin> moves_made st \<and> c \<notin> mines st)"

definition row_major :: "ai \<Rightarrow> cell list" where
  "row_major st = concat (map (\<lambda>x. map (Pair x) [0..width st - 1]) [0..height st - 1])"

definition scanned_before :: "cell \<Rightarrow> cell \<Rightarrow> bool" where
  "scanned_before a b = (fst a < fst b \<or> (fst a = fst b \<and> snd a < snd b))"

text \<open>
  The derivation conditions in the words of the specification, for comparison with
  \<open>infer\<close>: a proper, non-empty subset pair with both counts positive.
\<close>

definition spec_qualifies :: "sentence \<Rightarrow> sentence \<Rightarrow> bool" where
  "spec_qualifies A B =
     (cells A \<subseteq> cells B \<and> cells A \<noteq> cells B \<and> cells A \<noteq> {} \<and> cells B \<noteq> {} \<and>
      count A > 0 \<and> count B > 0)"

text \<open>
  The data model of a constraint: a finite set of cells (every Python set is finite)
  and a count that is not negative. \<open>each Q n\<close> says that the knowledge list has
  length \<open>n\<close> and that \<open>Q\<close> holds of each of its sentences.
\<close>

definition data_model :: "sentence \<Rightarrow> bool" where
  "data_model s = (finite (cells s) \<and> 0 \<le> count s)"

definition each :: "(sentence \<Rightarrow> bool) \<Rightarrow> nat \<Rightarrow> ai \<Rightarrow> bool" where
  "each Q n st = (length (knowledge st) = n \<and> list_all Q (knowledge st))"

text \<open>
  The sentence at index \<open>i\<close> yields no new fact: what its two queries return is
  already in \<open>mines\<close> and in \<open>safes\<close>.
\<close>

definition yields_nothing :: "ai \<Rightarrow> nat \<Rightarrow> bool" where
  "yields_nothing st i =
     (contents (knowledge st ! i) (fst (known_mines (knowledge st ! i))) \<subseteq> mines st \<and>
      contents (knowledge st ! i) (fst (known_safes (knowledge st ! i))) \<subseteq> safes st)"

subsection \<open>Minesweeper, the board that reports the counts\<close>

text \<open>
  The game keeps the mines twice, as the set \<open>self.mines\<close> and as the matrix
  \<open>self.board\<close>, true exactly at the cells of the set; the model keeps the set.
  \<open>nearby_mines\<close> walks \<open>range(cell[0] - 1, cell[0] + 2)\<close> and
  \<open>range(cell[1] - 1, cell[1] + 2)\<close>, skips the cell itself and counts the mines in
  bounds.
\<close>

record minesweeper =
  board_height :: int
  board_width :: int
  board_mines :: "cell set"

definition nearby_visit :: "minesweeper \<Rightarrow> cell \<Rightarrow> int \<Rightarrow> int \<Rightarrow> int \<Rightarrow> int" where
  "nearby_visit g c i j cnt =
     (if (i, j) = c then cnt
      else if 0 \<le> i \<and> i < board_height g \<and> 0 \<le> j \<and> j < board_width g
           then (if (i, j) \<in> board_mines g then cnt + 1 else cnt)
           else cnt)"

definition nearby_mines :: "minesweeper \<Rightarrow> cell \<Rightarrow> int" where
  "nearby_mines g c =
     fold (\<lambda>i. fold (nearby_visit g c i) [snd c - 1..snd c + 1]) [fst c - 1..fst c + 1] 0"

text \<open>The cells that \<open>nearby_mines\<close> counts around \<open>c\<close>.\<close>

definition counted :: "minesweeper \<Rightarrow> cell \<Rightarrow> cell \<Rightarrow> bool" where
  "counted g c d =
     (d \<noteq> c \<and> 0 \<le> fst d \<and> fst d < board_height g \<and> 0 \<le> snd d \<and> snd d < board_width g \<and>
      d \<in> board_mines g)"

text \<open>
  A sequence of observations is consistent with the game: no cell is probed twice, no
  probed cell is a mine, and every count is the one the board reports.
\<close>

definition consistent :: "minesweeper \<Rightarrow> (cell \<times> int) list \<Rightarrow> bool" where
  "consistent g obs =
     (distinct (map fst obs) \<and>
      list_all (\<lambda>(c, n). c \<notin> board_mines g \<and> n = nearby_mines g c) obs)"

text \<open>
  A sentence is true of a layout when it counts the layout's mines among its cells; an
  engine state is sound for the layout when its sentences are true, its \<open>mines\<close> are
  mines and its \<open>safes\<close> are not.
\<close>

definition true_of :: "cell set \<Rightarrow> sentence \<Rightarrow> bool" where
  "true_of L s = (finite (cells s) \<and> count s = int (card (cells s \<inter> L)))"

definition sound :: "cell set \<Rightarrow> ai \<Rightarrow> bool" where
  "sound L st =
     (list_all (true_of L) (knowledge st) \<and> mines st \<subseteq> L \<and> safes st \<inter> L = {})"

section \<open>Properties of the sentence operations\<close>

lemma mark_mine_bound:
  "count s \<le> int (card (cells s)) \<Longrightarrow>
   count (Sentence_mark_mine s c) \<le> int (card (cells (Sentence_mark_mine s c)))"
  by (cases "finite (cells s)") (auto simp: Sentence_mark_mine_def card_Diff_singleton_if)

lemma mark_safe_bound:
  "count s \<le> int (card (cells s)) \<Longrightarrow> keeps_bound s (As_safe c) \<Longrightarrow>
   count (Sentence_mark_safe s c) \<le> int (card (cells (Sentence_mark_safe s c)))"
  by (cases "finite (cells s)") (auto simp: Sentence_mark_safe_def card_Diff_singleton_if)

text \<open>
  Claim C4, as stated: a sentence with \<open>count \<le> |cells|\<close> keeps that bound under any
  sequence of \<open>mark_mine\<close> and \<open>mark_safe\<close> calls with arbitrary cells. It fails:
  \<open>mark_safe\<close> removes a member cell and leaves the count, so \<open>({(0,0)}, 1)\<close> becomes
  \<open>({}, 1)\<close>.
\<close>

theorem C4_mark_safe_counterexample:
  "count \<lparr>cells = {(0, 0)}, count = 1\<rparr> \<le> int (card (cells \<lparr>cells = {(0, 0)}, count = 1\<rparr>)) \<and>
   \<not> count (narrow_all \<lparr>cells = {(0, 0)}, count = 1\<rparr> [As_safe (0, 0)])
       \<le> int (card (cells (narrow_all \<lparr>cells = {(0, 0)}, count = 1\<rparr> [As_safe (0, 0)])))"
  by (simp add: Sentence_mark_safe_def)

text \<open>
  Claim C4, amended: a sentence with \<open>count \<le> |cells|\<close> keeps that bound under any
  sequence of \<open>mark_mine\<close> calls with arbitrary cells and of \<open>mark_safe\<close> calls each
  of which either names a cell outside the sentence or meets the sentence with
  \<open>count < |cells|\<close>.
\<close>

theorem C4_narrowing_bound:
  "count s \<le> int (card (cells s)) \<Longrightarrow> keeps_bound_all s ns \<Longrightarrow>
   count (narrow_all s ns) \<le> int (card (cells (narrow_all s ns)))"
proof (induction ns arbitrary: s)
  case Nil
  then show ?case by simp
next
  case (Cons n ns)
  have "count (narrow s n) \<le> int (card (cells (narrow s n)))"
    using Cons.prems by (cases n) (auto intro: mark_mine_bound mark_safe_bound simp del: keeps_bound.simps)
  then show ?case
    using Cons.IH Cons.prems(2) by simp
qed

theorem C4_narrowing_bound_witness:
  "count \<lparr>cells = {(0, 0), (0, 1), (1, 1)}, count = 2\<rparr>
     \<le> int (card (cells \<lparr>cells = {(0, 0), (0, 1), (1, 1)}, count = 2\<rparr>)) \<and>
   keeps_bound_all \<lparr>cells = {(0, 0), (0, 1), (1, 1)}, count = 2\<rparr>
     [As_mine (0, 0), As_safe (0, 1), As_mine (5, 5)] \<and>
   count (narrow_all \<lparr>cells = {(0, 0), (0, 1), (1, 1)}, count = 2\<rparr>
            [As_mine (0, 0), As_safe (0, 1), As_mine (5, 5)])
     \<le> int (card (cells (narrow_all \<lparr>cells = {(0, 0), (0, 1), (1, 1)}, count = 2\<rparr>
            [As_mine (0, 0), As_safe (0, 1), As_mine (5, 5)])))"
proof -
  have b: "count \<lparr>cells = {(0, 0), (0, 1), (1, 1)}, count = 2\<rparr>
             \<le> int (card (cells \<lparr>cells = {(0::int, 0::int), (0, 1), (1, 1)}, count = 2\<rparr>))"
    by simp
  have k: "keeps_bound_all \<lparr>cells = {(0, 0), (0, 1), (1, 1)}, count = 2\<rparr>
             [As_mine (0, 0), As_safe (0, 1), As_mine (5, 5)]"
    by (simp add: Sentence_mark_mine_def)
  show ?thesis
    using b k C4_narrowing_bound [OF b k] by blast
qed

text \<open>
  Claim C8, as stated: \<open>known_mines\<close> returns the full cell set iff \<open>count > 0\<close> and
  \<open>count = |cells|\<close>, the empty set otherwise, the returned set being a fresh one, not
  aliased to the sentence's \<open>cells\<close>. The source returns \<open>self.cells\<close> itself: on
  \<open>({(0,0),(0,1)}, 2)\<close> the result is the sentence's own set, and after
  \<open>mark_safe((0,0))\<close> on the sentence the set that was returned holds \<open>(0,1)\<close> only.
\<close>

theorem C8_known_mines_alias_counterexample:
  "aliased (fst (known_mines \<lparr>cells = {(0, 0), (0, 1)}, count = 2\<rparr>)) \<and>
   contents (Sentence_mark_safe \<lparr>cells = {(0, 0), (0, 1)}, count = 2\<rparr> (0, 0))
     (fst (known_mines \<lparr>cells = {(0, 0), (0, 1)}, count = 2\<rparr>)) = {(0, 1)}"
  by (simp add: known_mines_def Sentence_mark_safe_def)

text \<open>
  Claim C8, amended: \<open>known_mines\<close> returns the sentence's own \<open>cells\<close> object (the
  full cell set, aliased, not a copy) iff \<open>count > 0\<close> and \<open>count = |cells|\<close>, and a
  fresh empty set otherwise; the call does not modify the sentence.
\<close>

theorem C8_known_mines_contract:
  "contents s (fst (known_mines s)) =
     (if 0 < count s \<and> count s = int (card (cells s)) then cells s else {}) \<and>
   (aliased (fst (known_mines s)) \<longleftrightarrow> 0 < count s \<and> count s = int (card (cells s))) \<and>
   snd (known_mines s) = s"
  by (auto simp: known_mines_def Let_def)

theorem C8_known_mines_contract_witness:
  "contents \<lparr>cells = {(0, 0), (0, 1)}, count = 2\<rparr>
     (fst (known_mines \<lparr>cells = {(0, 0), (0, 1)}, count = 2\<rparr>)) = {(0, 0), (0, 1)} \<and>
   contents \<lparr>cells = {(0, 0), (0, 1)}, count = 1\<rparr>
     (fst (known_mines \<lparr>cells = {(0, 0), (0, 1)}, count = 1\<rparr>)) = {} \<and>
   \<not> aliased (fst (known_mines \<lparr>cells = {(0, 0), (0, 1)}, count = 1\<rparr>))"
  using C8_known_mines_contract [of "\<lparr>cells = {(0, 0), (0, 1)}, count = 2\<rparr>"]
    C8_known_mines_contract [of "\<lparr>cells = {(0, 0), (0, 1)}, count = 1\<rparr>"]
  by simp

section \<open>The neighbour set of a new sentence\<close>

lemma neighbour_visit_eq:
  "neighbour_visit st c x y N =
     (if (y, x) \<notin> safes st \<and> chebyshev c (y, x) = 1 then insert (y, x) N else N)"
  by (auto simp: neighbour_visit_def chebyshev_def Let_def max_def)

lemma inner_scan:
  "fold (neighbour_visit st c x) ys N =
     N \<union> {(y, x) | y. y \<in> set ys \<and> (y, x) \<notin> safes st \<and> chebyshev c (y, x) = 1}"
proof (induction ys arbitrary: N)
  case Nil
  then show ?case by simp
next
  case (Cons y ys)
  then show ?case by (auto simp: neighbour_visit_eq)
qed

lemma outer_scan:
  "fold (\<lambda>x. fold (neighbour_visit st c x) ys) xs N =
     N \<union> {(y, x) | y x. x \<in> set xs \<and> y \<in> set ys \<and> (y, x) \<notin> safes st \<and> chebyshev c (y, x) = 1}"
proof (induction xs arbitrary: N)
  case Nil
  then show ?case by simp
next
  case (Cons x xs)
  let ?S = "\<lambda>zs. {(y, x) | y x. x \<in> set zs \<and> y \<in> set ys \<and> (y, x) \<notin> safes st \<and> chebyshev c (y, x) = 1}"
  have "fold (\<lambda>x. fold (neighbour_visit st c x) ys) (x # xs) N =
        fold (\<lambda>x. fold (neighbour_visit st c x) ys) xs (fold (neighbour_visit st c x) ys N)"
    by simp
  also have "\<dots> = fold (neighbour_visit st c x) ys N \<union> ?S xs"
    by (rule Cons.IH)
  also have "\<dots> = (N \<union> ?S [x]) \<union> ?S xs"
    by (simp add: inner_scan)
  also have "\<dots> = N \<union> ?S (x # xs)"
    by auto
  finally show ?case .
qed

lemma neighbours_of_eq:
  "neighbours_of st c = {d \<in> board st. chebyshev c d = 1 \<and> d \<notin> safes st}"
  unfolding neighbours_of_def outer_scan by (auto simp: board_def)

lemma finite_board: "finite (board st)"
  by (simp add: board_def)

lemma finite_neighbours_of: "finite (neighbours_of st c)"
  by (simp add: neighbours_of_eq finite_board)

text \<open>
  Claim C6: the sentence that \<open>add_knowledge(cell, count)\<close> appends has the given
  count, and its cells are exactly the board cells at Chebyshev distance 1 from \<open>cell\<close>
  that are not in \<open>safes\<close> at that point, \<open>cell\<close> having just been added to
  \<open>moves_made\<close> and \<open>safes\<close>; \<open>cell\<close> is not among them, and the neighbours that are
  in \<open>mines\<close> (and not in \<open>safes\<close>) are.
\<close>

theorem C6_new_sentence:
  "add_knowledge st c n =
     derivation_step (closure_pass (append_sentence (record_move st c) c n)) \<and>
   append_sentence (record_move st c) c n =
     (record_move st c)\<lparr>knowledge := knowledge (record_move st c) @
        [\<lparr>cells = {d \<in> board st. chebyshev c d = 1 \<and> d \<notin> safes (record_move st c)},
          count = n\<rparr>]\<rparr> \<and>
   safes (record_move st c) = insert c (safes st) \<and>
   moves_made (record_move st c) = insert c (moves_made st) \<and>
   mines (record_move st c) = mines st \<and>
   c \<notin> {d \<in> board st. chebyshev c d = 1 \<and> d \<notin> safes (record_move st c)} \<and>
   {d \<in> board st. chebyshev c d = 1 \<and> d \<in> mines st - insert c (safes st)}
     \<subseteq> {d \<in> board st. chebyshev c d = 1 \<and> d \<notin> safes (record_move st c)}"
  by (auto simp: add_knowledge_def append_sentence_def neighbours_of_eq record_move_def
      mark_safe_def board_def)

theorem C6_new_sentence_witness:
  "(0, 1) \<in> cells (last (knowledge (append_sentence (record_move
      \<lparr>height = 3, width = 3, moves_made = {(0, 0)}, mines = {(0, 1)}, safes = {(0, 0)},
       knowledge = []\<rparr> (1, 1)) (1, 1) 1))) \<and>
   (0, 0) \<notin> cells (last (knowledge (append_sentence (record_move
      \<lparr>height = 3, width = 3, moves_made = {(0, 0)}, mines = {(0, 1)}, safes = {(0, 0)},
       knowledge = []\<rparr> (1, 1)) (1, 1) 1))) \<and>
   (1, 1) \<notin> cells (last (knowledge (append_sentence (record_move
      \<lparr>height = 3, width = 3, moves_made = {(0, 0)}, mines = {(0, 1)}, safes = {(0, 0)},
       knowledge = []\<rparr> (1, 1)) (1, 1) 1))) \<and>
   (2, 2) \<in> cells (last (knowledge (append_sentence (record_move
      \<lparr>height = 3, width = 3, moves_made = {(0, 0)}, mines = {(0, 1)}, safes = {(0, 0)},
       knowledge = []\<rparr> (1, 1)) (1, 1) 1))) \<and>
   count (last (knowledge (append_sentence (record_move
      \<lparr>height = 3, width = 3, moves_made = {(0, 0)}, mines = {(0, 1)}, safes = {(0, 0)},
       knowledge = []\<rparr> (1, 1)) (1, 1) 1))) = 1"
  using C6_new_sentence [of
      "\<lparr>height = 3, width = 3, moves_made = {(0, 0)}, mines = {(0, 1)}, safes = {(0, 0)},
        knowledge = []\<rparr>" "(1, 1)" 1]
  by (simp add: board_def chebyshev_def)

section \<open>Choosing a move\<close>

lemma find_append_cases:
  "List.find P (xs @ ys) =
     (case List.find P xs of None \<Rightarrow> List.find P ys | Some x \<Rightarrow> Some x)"
  by (induction xs) auto

lemma scan_row_find: "scan_row st x ys = List.find (eligible st) (map (Pair x) ys)"
  by (induction ys) (auto simp: eligible_def)

lemma scan_rows_find:
  "scan_rows st xs =
     List.find (eligible st) (concat (map (\<lambda>x. map (Pair x) [0..width st - 1]) xs))"
  by (induction xs) (auto simp: find_append_cases scan_row_find split: option.splits)

lemma make_random_move_find:
  "make_random_move st = (List.find (eligible st) (row_major st), st)"
  by (simp add: make_random_move_def row_major_def scan_rows_find)

lemma set_row_major: "set (row_major st) = board st"
  by (auto simp: row_major_def board_def)

lemma rows_in_scan_order:
  "sorted_wrt (<) xs \<Longrightarrow> sorted_wrt (<) ys \<Longrightarrow>
   sorted_wrt scanned_before (concat (map (\<lambda>x. map (Pair x) ys) xs))"
proof (induction xs)
  case Nil
  then show ?case by simp
next
  case (Cons x xs)
  have "sorted_wrt scanned_before (map (Pair x) ys)"
    using Cons.prems(2) by (simp add: sorted_wrt_map scanned_before_def)
  moreover have "sorted_wrt scanned_before (concat (map (\<lambda>x. map (Pair x) ys) xs))"
    using Cons by simp
  moreover have "\<forall>a \<in> set (map (Pair x) ys).
      \<forall>b \<in> set (concat (map (\<lambda>x. map (Pair x) ys) xs)). scanned_before a b"
    using Cons.prems(1) by (auto simp: scanned_before_def)
  ultimately show ?case by (simp add: sorted_wrt_append)
qed

lemma upto_increasing: "sorted_wrt (<) [i..j]"
  by (simp add: strict_sorted_iff)

lemma row_major_in_scan_order: "sorted_wrt scanned_before (row_major st)"
  unfolding row_major_def by (rule rows_in_scan_order) (rule upto_increasing)+

lemma find_is_first:
  assumes "sorted_wrt R xs" and "List.find P xs = Some x" and "y \<in> set xs" and "R y x"
    and asym: "\<And>a b. R a b \<Longrightarrow> \<not> R b a" and irrefl: "\<And>a. \<not> R a a"
  shows "\<not> P y"
proof -
  from assms(2) obtain i where i: "i < length xs" "x = xs ! i" "\<forall>j<i. \<not> P (xs ! j)"
    by (auto simp: find_Some_iff)
  from assms(3) obtain j where j: "j < length xs" "y = xs ! j"
    by (auto simp: in_set_conv_nth)
  have "j < i"
  proof (rule ccontr)
    assume "\<not> j < i"
    then consider "j = i" | "i < j" by linarith
    then show False
    proof cases
      case 1
      then show ?thesis using assms(4) irrefl i j by simp
    next
      case 2
      then have "R (xs ! i) (xs ! j)"
        using assms(1) j(1) by (simp add: sorted_wrt_iff_nth_less)
      then show ?thesis using assms(4) asym i j by blast
    qed
  qed
  then show ?thesis using i(3) j(2) by simp
qed

lemma make_random_move_first:
  assumes "fst (make_random_move st) = Some c" and "c' \<in> board st" and "scanned_before c' c"
  shows "\<not> eligible st c'"
proof (rule find_is_first [OF row_major_in_scan_order _ _ assms(3)])
  show "List.find (eligible st) (row_major st) = Some c"
    using assms(1) by (simp add: make_random_move_find)
  show "c' \<in> set (row_major st)"
    using assms(2) by (simp add: set_row_major)
  show "\<And>a b. scanned_before a b \<Longrightarrow> \<not> scanned_before b a"
    by (auto simp: scanned_before_def)
  show "\<And>a. \<not> scanned_before a a"
    by (simp add: scanned_before_def)
qed

lemma make_random_move_Some:
  "fst (make_random_move st) = Some c \<Longrightarrow> c \<in> board st \<and> eligible st c"
  by (auto simp: make_random_move_find find_Some_iff set_row_major [symmetric])

lemma make_random_move_None:
  "fst (make_random_move st) = None \<longleftrightarrow> (\<forall>c \<in> board st. \<not> eligible st c)"
  by (auto simp: make_random_move_find find_None_iff set_row_major)

text \<open>
  Claim C9: \<open>make_random_move\<close> never returns a cell in \<open>mines\<close> or in \<open>moves_made\<close>;
  it returns a board cell outside \<open>moves_made \<union> mines\<close> whenever there is one, and
  \<open>None\<close> if and only if every board cell is in \<open>moves_made \<union> mines\<close>.
\<close>

theorem C9_make_random_move_contract:
  "(\<forall>c. fst (make_random_move st) = Some c \<longrightarrow>
      c \<notin> mines st \<and> c \<notin> moves_made st \<and> c \<in> board st) \<and>
   ((\<exists>c \<in> board st. c \<notin> moves_made st \<union> mines st) \<longrightarrow>
      (\<exists>c \<in> board st. c \<notin> moves_made st \<union> mines st \<and> fst (make_random_move st) = Some c)) \<and>
   (fst (make_random_move st) = None \<longleftrightarrow> board st \<subseteq> moves_made st \<union> mines st)"
proof -
  have e: "fst (make_random_move st) = None \<longleftrightarrow> board st \<subseteq> moves_made st \<union> mines st"
    unfolding make_random_move_None by (auto simp: eligible_def)
  have f: "\<exists>c \<in> board st. c \<notin> moves_made st \<union> mines st \<and> fst (make_random_move st) = Some c"
    if "\<exists>c \<in> board st. c \<notin> moves_made st \<union> mines st"
  proof -
    from that e have "fst (make_random_move st) \<noteq> None" by blast
    then obtain c where c: "fst (make_random_move st) = Some c" by blast
    from make_random_move_Some [OF c] c show ?thesis by (auto simp: eligible_def)
  qed
  show ?thesis
    using make_random_move_Some e f by (auto simp: eligible_def)
qed

theorem C9_make_random_move_contract_witness:
  "(1, 0) \<in> board \<lparr>height = 2, width = 2, moves_made = {(0, 0)}, mines = {(0, 1)},
      safes = {(0, 0)}, knowledge = []\<rparr> \<and>
   (1, 0) \<notin> moves_made \<lparr>height = 2, width = 2, moves_made = {(0, 0)}, mines = {(0, 1)},
      safes = {(0, 0)}, knowledge = []\<rparr> \<union> mines \<lparr>height = 2, width = 2, moves_made = {(0, 0)}, mines = {(0, 1)},
      safes = {(0, 0)}, knowledge = []\<rparr> \<and>
   (\<exists>c. fst (make_random_move \<lparr>height = 2, width = 2, moves_made = {(0, 0)}, mines = {(0, 1)},
      safes = {(0, 0)}, knowledge = []\<rparr>) = Some c \<and> c \<noteq> (0, 0) \<and> c \<noteq> (0, 1)) \<and>
   fst (make_random_move \<lparr>height = 1, width = 2, moves_made = {(0, 0)}, mines = {(0, 1)},
      safes = {(0, 0)}, knowledge = []\<rparr>) = None"
proof -
  let ?st = "\<lparr>height = 2, width = 2, moves_made = {(0, 0)}, mines = {(0, 1)},
      safes = {(0, 0)}, knowledge = []\<rparr>"
  let ?st1 = "\<lparr>height = 1, width = 2, moves_made = {(0, 0)}, mines = {(0, 1)},
      safes = {(0, 0)}, knowledge = []\<rparr>"
  have a: "(1, 0) \<in> board ?st" by (simp add: board_def)
  have b: "(1, 0) \<notin> moves_made ?st \<union> mines ?st" by simp
  have c: "board ?st1 \<subseteq> moves_made ?st1 \<union> mines ?st1"
    by (auto simp: board_def)
  from a b have "\<exists>c \<in> board ?st. c \<notin> moves_made ?st \<union> mines ?st" by blast
  with C9_make_random_move_contract [of ?st] 
  have "\<exists>c \<in> board ?st. c \<notin> moves_made ?st \<union> mines ?st \<and> fst (make_random_move ?st) = Some c"
    by blast
  then have d: "\<exists>c. fst (make_random_move ?st) = Some c \<and> c \<noteq> (0, 0) \<and> c \<noteq> (0, 1)"
    by auto
  from c C9_make_random_move_contract [of ?st1] have e: "fst (make_random_move ?st1) = None"
    by blast
  show ?thesis using a b d e by blast
qed

text \<open>
  Claim C10: \<open>make_random_move\<close> uses no randomness and changes nothing. Its result is
  the first cell of the row-major scan (rows \<open>0..height-1\<close>, columns \<open>0..width-1\<close>
  within a row) that is in neither \<open>moves_made\<close> nor \<open>mines\<close>, \<open>None\<close> when there is
  none; the engine state is returned as it was, and two states that agree on the
  dimensions, \<open>moves_made\<close> and \<open>mines\<close> get the same answer.
\<close>

theorem C10_make_random_move_first:
  "snd (make_random_move st) = st \<and>
   fst (make_random_move st) = List.find (eligible st) (row_major st) \<and>
   (\<forall>c. fst (make_random_move st) = Some c \<longrightarrow>
      c \<in> board st \<and> eligible st c \<and>
      (\<forall>c' \<in> board st. scanned_before c' c \<longrightarrow> \<not> eligible st c')) \<and>
   (fst (make_random_move st) = None \<longleftrightarrow> (\<forall>c \<in> board st. \<not> eligible st c)) \<and>
   (\<forall>st'. height st' = height st \<and> width st' = width st \<and>
      moves_made st' = moves_made st \<and> mines st' = mines st \<longrightarrow>
      fst (make_random_move st') = fst (make_random_move st))"
proof -
  have a: "snd (make_random_move st) = st"
    "fst (make_random_move st) = List.find (eligible st) (row_major st)"
    by (simp_all add: make_random_move_find)
  have g: "fst (make_random_move st') = fst (make_random_move st)"
    if "height st' = height st \<and> width st' = width st \<and>
      moves_made st' = moves_made st \<and> mines st' = mines st" for st'
  proof -
    have "eligible st' = eligible st" using that by (auto simp: eligible_def fun_eq_iff)
    moreover have "row_major st' = row_major st" using that by (simp add: row_major_def)
    ultimately show ?thesis by (simp add: make_random_move_find)
  qed
  show ?thesis
    using a make_random_move_Some make_random_move_None make_random_move_first g by blast
qed

theorem C10_make_random_move_first_witness:
  "make_random_move \<lparr>height = 2, width = 2, moves_made = {(0, 0)}, mines = {(0, 1)},
      safes = {(0, 0)}, knowledge = []\<rparr> =
    (Some (1, 0), \<lparr>height = 2, width = 2, moves_made = {(0, 0)}, mines = {(0, 1)},
      safes = {(0, 0)}, knowledge = []\<rparr>)"
proof -
  let ?st = "\<lparr>height = 2, width = 2, moves_made = {(0, 0)}, mines = {(0, 1)},
      safes = {(0, 0)}, knowledge = []\<rparr>"
  have r: "row_major ?st = [(0, 0), (0, 1), (1, 0), (1, 1)]"
    by (simp add: row_major_def upto.simps)
  have "List.find (eligible ?st) (row_major ?st) = Some (1, 0)"
    unfolding r by (simp add: eligible_def)
  with C10_make_random_move_first [of ?st] show ?thesis
    by (simp add: prod_eq_iff)
qed

section \<open>Loops that mark cells\<close>

lemma fold_cond_inv:
  assumes "P st" and "\<And>c s. P s \<Longrightarrow> g s c \<Longrightarrow> P (f s c)"
  shows "P (fold (\<lambda>c s. if g s c then f s c else s) xs st)"
  using assms(1) by (induction xs arbitrary: st) (auto intro: assms(2))

lemma fold_inv:
  assumes "P st" and "\<And>x s. x \<in> set xs \<Longrightarrow> P s \<Longrightarrow> P (f x s)"
  shows "P (fold f xs st)"
  using assms by (induction xs arbitrary: st) auto

lemma each_mark_mine:
  assumes "\<And>s c. Q s \<Longrightarrow> Q (Sentence_mark_mine s c)" and "each Q n st"
  shows "each Q n (mark_mine st c)"
  using assms by (auto simp: each_def mark_mine_def list_all_iff)

lemma each_mark_safe:
  assumes "\<And>s c. Q s \<Longrightarrow> Q (Sentence_mark_safe s c)" and "each Q n st"
  shows "each Q n (mark_safe st c)"
  using assms by (auto simp: each_def mark_safe_def list_all_iff)

lemma each_closure_sentence:
  assumes m: "\<And>s c. Q s \<Longrightarrow> Q (Sentence_mark_mine s c)"
    and s: "\<And>s c. Q s \<Longrightarrow> Q (Sentence_mark_safe s c)"
    and a: "each Q n st"
  shows "each Q n (closure_sentence i st)"
proof -
  have mm: "each Q n (mark_mine t c)" if "each Q n t" for t c
    using m that by (rule each_mark_mine [where Q = Q])
  have ms: "each Q n (mark_safe t c)" if "each Q n t" for t c
    using s that by (rule each_mark_safe [where Q = Q])
  have 1: "each Q n (fold (\<lambda>c s. if holds s i r c then mark_mine s c else s) xs st)" for r xs
    using a mm by (rule fold_cond_inv [where P = "each Q n"])
  have "each Q n (fold (\<lambda>c s. if holds s i r' c then mark_safe s c else s) ys
                 (fold (\<lambda>c s. if holds s i r c then mark_mine s c else s) xs st))" for r r' xs ys
    using 1 ms by (rule fold_cond_inv [where P = "each Q n"])
  then show ?thesis
    by (simp add: closure_sentence_def Let_def)
qed

lemma each_closure_prefix:
  assumes m: "\<And>s c. Q s \<Longrightarrow> Q (Sentence_mark_mine s c)"
    and s: "\<And>s c. Q s \<Longrightarrow> Q (Sentence_mark_safe s c)"
    and a: "each Q n st"
  shows "each Q n (fold closure_sentence js st)"
proof -
  have "each Q n (closure_sentence i t)" if "each Q n t" for i t
    using m s that by (rule each_closure_sentence [where Q = Q])
  with a show ?thesis
    by (rule fold_inv [where P = "each Q n"])
qed

lemma each_closure_pass:
  assumes m: "\<And>s c. Q s \<Longrightarrow> Q (Sentence_mark_mine s c)"
    and s: "\<And>s c. Q s \<Longrightarrow> Q (Sentence_mark_safe s c)"
    and a: "each Q n st"
  shows "each Q n (closure_pass st)"
  unfolding closure_pass_def using m s a by (rule each_closure_prefix [where Q = Q])

lemma each_record_move:
  assumes "\<And>s c. Q s \<Longrightarrow> Q (Sentence_mark_safe s c)" and "each Q n st"
  shows "each Q n (record_move st c)"
  using assms by (auto simp: each_def record_move_def mark_safe_def list_all_iff)

lemma each_append_sentence:
  assumes "each Q n st" and "Q \<lparr>cells = neighbours_of st c, count = k\<rparr>"
  shows "each Q (Suc n) (append_sentence st c k)"
  using assms by (simp add: each_def append_sentence_def)

lemma each_before_derivation:
  assumes m: "\<And>s c. Q s \<Longrightarrow> Q (Sentence_mark_mine s c)"
    and s: "\<And>s c. Q s \<Longrightarrow> Q (Sentence_mark_safe s c)"
    and a: "each Q n st" and q: "\<And>N. finite N \<Longrightarrow> Q \<lparr>cells = N, count = k\<rparr>"
  shows "each Q (Suc n) (closure_pass (append_sentence (record_move st c) c k))"
proof -
  have "each Q n (record_move st c)"
    using s a by (rule each_record_move [where Q = Q])
  then have "each Q (Suc n) (append_sentence (record_move st c) c k)"
    by (rule each_append_sentence) (rule q, rule finite_neighbours_of)
  with m s show ?thesis
    by (rule each_closure_pass [where Q = Q])
qed

lemma length_mark_mine [simp]: "length (knowledge (mark_mine st c)) = length (knowledge st)"
  by (simp add: mark_mine_def)

lemma length_mark_safe [simp]: "length (knowledge (mark_safe st c)) = length (knowledge st)"
  by (simp add: mark_safe_def)

lemma data_model_mark_mine: "data_model s \<Longrightarrow> data_model (Sentence_mark_mine s c)"
  by (simp add: data_model_def Sentence_mark_mine_def)

lemma data_model_mark_safe: "data_model s \<Longrightarrow> data_model (Sentence_mark_safe s c)"
  by (simp add: data_model_def Sentence_mark_safe_def)

section \<open>The derivation step\<close>

lemma infer_eq:
  "infer A B =
     (if cells A \<subseteq> cells B \<and> cells A \<noteq> cells B \<and> card (cells A) \<noteq> 0 \<and> card (cells B) \<noteq> 0 \<and>
         count A \<noteq> 0 \<and> count B \<noteq> 0
      then [\<lparr>cells = cells B - cells A, count = count B - count A\<rparr>] else [])"
  by (auto simp: infer_def)

lemma infer_spec:
  assumes "data_model A" and "data_model B"
  shows "infer A B =
     (if spec_qualifies A B then [\<lparr>cells = cells B - cells A, count = count B - count A\<rparr>] else [])"
  using assms by (auto simp: infer_eq spec_qualifies_def data_model_def)

lemma tempKnowledge_spec:
  assumes "list_all data_model ks"
  shows "tempKnowledge ks =
     [\<lparr>cells = cells B - cells A, count = count B - count A\<rparr>. A \<leftarrow> ks, B \<leftarrow> ks, spec_qualifies A B]"
proof -
  have "concat (map (infer A) ks) =
        concat (map (\<lambda>B. if spec_qualifies A B then [\<lparr>cells = cells B - cells A, count = count B - count A\<rparr>] else []) ks)"
    if "A \<in> set ks" for A
  proof -
    have "map (infer A) ks = map (\<lambda>B. if spec_qualifies A B then [\<lparr>cells = cells B - cells A, count = count B - count A\<rparr>] else []) ks"
      using assms that by (intro map_cong [OF refl] infer_spec) (auto simp: list_all_iff)
    then show ?thesis by (rule arg_cong)
  qed
  then have "map (\<lambda>first. concat (map (infer first) ks)) ks =
        map (\<lambda>A. concat (map (\<lambda>B. if spec_qualifies A B then [\<lparr>cells = cells B - cells A, count = count B - count A\<rparr>] else []) ks)) ks"
    by (intro map_cong [OF refl])
  then show ?thesis
    unfolding tempKnowledge_def by (rule arg_cong)
qed

text \<open>
  Claim C5: on an engine whose sentences fit the data model (finite cells, counts not
  negative), with an observed count that is not negative, the derivation step of
  \<open>add_knowledge\<close> appends to \<open>knowledge\<close> exactly the sentences
  \<open>(B.cells - A.cells, B.count - A.count)\<close>, one for every ordered pair \<open>(A, B)\<close> of
  the list as the closure pass left it with \<open>A.cells \<subseteq> B.cells\<close>,
  \<open>A.cells \<noteq> B.cells\<close>, both cell sets non-empty and both counts positive; it changes
  nothing else, and the pairs come from that list only, not from the sentences being
  appended.
\<close>

theorem C5_subset_subtraction:
  assumes "list_all data_model (knowledge st)" and "0 \<le> n"
  shows "add_knowledge st c n =
     (closure_pass (append_sentence (record_move st c) c n))
       \<lparr>knowledge := knowledge (closure_pass (append_sentence (record_move st c) c n)) @
          [\<lparr>cells = cells B - cells A, count = count B - count A\<rparr>.
             A \<leftarrow> knowledge (closure_pass (append_sentence (record_move st c) c n)),
             B \<leftarrow> knowledge (closure_pass (append_sentence (record_move st c) c n)),
             spec_qualifies A B]\<rparr>"
proof -
  let ?Q = data_model
  have "each ?Q (length (knowledge st)) st"
    using assms(1) by (simp add: each_def)
  then have "each ?Q (Suc (length (knowledge st))) (closure_pass (append_sentence (record_move st c) c n))"
    by (intro each_before_derivation [where Q = ?Q] data_model_mark_mine data_model_mark_safe)
       (simp_all add: assms(2) data_model_def)
  then have "list_all ?Q (knowledge (closure_pass (append_sentence (record_move st c) c n)))"
    by (simp add: each_def)
  then show ?thesis
    by (simp add: add_knowledge_def derivation_step_def tempKnowledge_spec)
qed


theorem C5_subset_subtraction_witness:
  "list_all data_model (knowledge
      \<lparr>height = 2, width = 5, moves_made = {(0, 1)}, mines = {}, safes = {(0, 1)},
       knowledge = [\<lparr>cells = {(0, 0), (0, 2), (1, 0), (1, 1), (1, 2)}, count = 2\<rparr>]\<rparr>) \<and>
   (0::int) \<le> 1 \<and>
   knowledge (add_knowledge
      \<lparr>height = 2, width = 5, moves_made = {(0, 1)}, mines = {}, safes = {(0, 1)},
       knowledge = [\<lparr>cells = {(0, 0), (0, 2), (1, 0), (1, 1), (1, 2)}, count = 2\<rparr>]\<rparr>
      (0, 0) 1) =
    [\<lparr>cells = {(0, 2), (1, 0), (1, 1), (1, 2)}, count = 2\<rparr>,
     \<lparr>cells = {(1, 0), (1, 1)}, count = 1\<rparr>,
     \<lparr>cells = {(0, 2), (1, 2)}, count = 1\<rparr>]"
proof -
  let ?st = "\<lparr>height = 2, width = 5, moves_made = {(0, 1)}, mines = {}, safes = {(0, 1)},
       knowledge = [\<lparr>cells = {(0, 0), (0, 2), (1, 0), (1, 1), (1, 2)}, count = 2\<rparr>]\<rparr>"
  have h: "list_all data_model (knowledge ?st)"
    by (simp add: data_model_def)
  have n: "(0::int) \<le> 1"
    by simp
  have k: "knowledge (closure_pass (append_sentence (record_move ?st (0, 0)) (0, 0) 1)) =
      [\<lparr>cells = {(0, 2), (1, 0), (1, 1), (1, 2)}, count = 2\<rparr>,
       \<lparr>cells = {(1, 0), (1, 1)}, count = 1\<rparr>]"
    by code_simp
  let ?cp = "closure_pass (append_sentence (record_move ?st (0, 0)) (0, 0) 1)"
  from C5_subset_subtraction [OF h n]
  have "knowledge (add_knowledge ?st (0, 0) 1) =
      knowledge ?cp @ [\<lparr>cells = cells B - cells A, count = count B - count A\<rparr>.
             A \<leftarrow> knowledge ?cp, B \<leftarrow> knowledge ?cp, spec_qualifies A B]"
    by simp
  also have "\<dots> = [\<lparr>cells = {(0, 2), (1, 0), (1, 1), (1, 2)}, count = 2\<rparr>,
     \<lparr>cells = {(1, 0), (1, 1)}, count = 1\<rparr>,
     \<lparr>cells = {(0, 2), (1, 2)}, count = 1\<rparr>]"
    unfolding k by code_simp
  finally have "knowledge (add_knowledge ?st (0, 0) 1) =
    [\<lparr>cells = {(0, 2), (1, 0), (1, 1), (1, 2)}, count = 2\<rparr>,
     \<lparr>cells = {(1, 0), (1, 1)}, count = 1\<rparr>,
     \<lparr>cells = {(0, 2), (1, 2)}, count = 1\<rparr>]" .
  with h n show ?thesis by blast
qed

lemma in_tempKnowledge:
  assumes "A \<in> set ks" and "B \<in> set ks" and "D \<in> set (infer A B)"
  shows "D \<in> set (tempKnowledge ks)"
  using assms by (auto simp: tempKnowledge_def)

text \<open>
  Claim C7, as stated: the derivation step never appends a sentence equal by value to
  one already present, so \<open>knowledge\<close> never holds two equal entries. The source has
  no such guard. On a 2 by 5 board with mines at \<open>(1,0)\<close> and \<open>(1,2)\<close>, after the
  observations \<open>((0,1), 2)\<close> and \<open>((0,0), 1)\<close> the sentence \<open>({(0,2),(1,2)}, 1)\<close> is in
  \<open>knowledge\<close>; the derivation step of the third observation \<open>((0,4), 0)\<close> derives it
  again and appends it.
\<close>

theorem C7_duplicate_counterexample:
  "\<lparr>cells = {(0, 2), (1, 2)}, count = 1\<rparr>
     \<in> set (knowledge (closure_pass (append_sentence (record_move
          (observe_all (init_ai 2 5) [((0, 1), 2), ((0, 0), 1)]) (0, 4)) (0, 4) 0))) \<and>
   \<lparr>cells = {(0, 2), (1, 2)}, count = 1\<rparr>
     \<in> set (tempKnowledge (knowledge (closure_pass (append_sentence (record_move
          (observe_all (init_ai 2 5) [((0, 1), 2), ((0, 0), 1)]) (0, 4)) (0, 4) 0)))) \<and>
   \<not> distinct (knowledge (observe_all (init_ai 2 5) [((0, 1), 2), ((0, 0), 1), ((0, 4), 0)]))"
  by code_simp

text \<open>
  Claim C7, amended: the derivation step has no duplicate guard. For every ordered pair
  \<open>(A, B)\<close> of \<open>knowledge\<close> that qualifies for the subtraction rule it appends
  \<open>(B.cells - A.cells, B.count - A.count)\<close> whether or not an equal sentence is
  already present, so the step raises the number of entries of \<open>knowledge\<close> equal to
  that sentence by at least one, and \<open>knowledge\<close> can hold entries equal by value.
\<close>

theorem C7_no_duplicate_guard:
  assumes "A \<in> set (knowledge st)" and "B \<in> set (knowledge st)" and "finite (cells B)"
    and "spec_qualifies A B"
  shows "count_list (knowledge st) \<lparr>cells = cells B - cells A, count = count B - count A\<rparr>
     < count_list (knowledge (derivation_step st))
         \<lparr>cells = cells B - cells A, count = count B - count A\<rparr>"
proof -
  let ?D = "\<lparr>cells = cells B - cells A, count = count B - count A\<rparr>"
  have "finite (cells A)"
    using assms(3,4) by (auto simp: spec_qualifies_def intro: finite_subset)
  then have "infer A B = [?D]"
    using assms(3,4) by (auto simp: infer_eq spec_qualifies_def)
  then have "?D \<in> set (tempKnowledge (knowledge st))"
    using assms(1,2) by (intro in_tempKnowledge [of A _ B]) simp_all
  then have "count_list (tempKnowledge (knowledge st)) ?D \<noteq> 0"
    unfolding count_list_0_iff by simp
  then have "0 < count_list (tempKnowledge (knowledge st)) ?D"
    by simp
  then show ?thesis
    by (simp add: derivation_step_def)
qed


theorem C7_no_duplicate_guard_witness:
  "\<lparr>cells = {(1, 0), (1, 1)}, count = 1\<rparr> \<in> set (knowledge
      \<lparr>height = 2, width = 5, moves_made = {}, mines = {}, safes = {},
       knowledge = [\<lparr>cells = {(0, 2), (1, 0), (1, 1), (1, 2)}, count = 2\<rparr>,
                    \<lparr>cells = {(1, 0), (1, 1)}, count = 1\<rparr>,
                    \<lparr>cells = {(0, 2), (1, 2)}, count = 1\<rparr>]\<rparr>) \<and>
   spec_qualifies \<lparr>cells = {(1, 0), (1, 1)}, count = 1\<rparr>
     \<lparr>cells = {(0, 2), (1, 0), (1, 1), (1, 2)}, count = 2\<rparr> \<and>
   count_list (knowledge
      \<lparr>height = 2, width = 5, moves_made = {}, mines = {}, safes = {},
       knowledge = [\<lparr>cells = {(0, 2), (1, 0), (1, 1), (1, 2)}, count = 2\<rparr>,
                    \<lparr>cells = {(1, 0), (1, 1)}, count = 1\<rparr>,
                    \<lparr>cells = {(0, 2), (1, 2)}, count = 1\<rparr>]\<rparr>)
      \<lparr>cells = {(0, 2), (1, 0), (1, 1), (1, 2)} - {(1, 0), (1, 1)}, count = 2 - 1\<rparr>
    < count_list (knowledge (derivation_step
      \<lparr>height = 2, width = 5, moves_made = {}, mines = {}, safes = {},
       knowledge = [\<lparr>cells = {(0, 2), (1, 0), (1, 1), (1, 2)}, count = 2\<rparr>,
                    \<lparr>cells = {(1, 0), (1, 1)}, count = 1\<rparr>,
                    \<lparr>cells = {(0, 2), (1, 2)}, count = 1\<rparr>]\<rparr>))
      \<lparr>cells = {(0, 2), (1, 0), (1, 1), (1, 2)} - {(1, 0), (1, 1)}, count = 2 - 1\<rparr>"
proof -
  let ?A = "\<lparr>cells = {(1::int, 0::int), (1, 1)}, count = 1\<rparr>"
  let ?B = "\<lparr>cells = {(0::int, 2::int), (1, 0), (1, 1), (1, 2)}, count = 2\<rparr>"
  let ?st = "\<lparr>height = 2, width = 5, moves_made = {}, mines = {}, safes = {},
       knowledge = [?B, ?A, \<lparr>cells = {(0, 2), (1, 2)}, count = 1\<rparr>]\<rparr>"
  have a: "?A \<in> set (knowledge ?st)" by simp
  have b: "?B \<in> set (knowledge ?st)" by simp
  have f: "finite (cells ?B)" by simp
  have q: "spec_qualifies ?A ?B" by code_simp
  from C7_no_duplicate_guard [OF a b f q] a q show ?thesis by simp
qed

section \<open>The iteration order of a set\<close>

text \<open>
  The two inner loops of the closure pass walk a Python set, in an order the language
  leaves open. Marking two different cells commutes, so every order gives the same
  state: \<open>closure_sentence\<close>, which walks the copy in increasing order, is what the
  loops compute whatever the order.
\<close>

lemma fold_move:
  assumes inv: "\<And>x s. P s \<Longrightarrow> P (f x s)"
    and comm: "\<And>x y s. P s \<Longrightarrow> x \<noteq> y \<Longrightarrow> f x (f y s) = f y (f x s)"
  shows "P s \<Longrightarrow> x \<notin> set zs \<Longrightarrow> f x (fold f zs s) = fold f zs (f x s)"
proof (induction zs arbitrary: s)
  case Nil
  then show ?case by simp
next
  case (Cons z zs)
  have "f x (fold f (z # zs) s) = f x (fold f zs (f z s))" by simp
  also have "\<dots> = fold f zs (f x (f z s))"
    using Cons.prems by (intro Cons.IH inv) simp_all
  also have "\<dots> = fold f zs (f z (f x s))"
    using comm [of s x z] Cons.prems by simp
  finally show ?case by simp
qed

lemma fold_any_order:
  assumes inv: "\<And>x s. P s \<Longrightarrow> P (f x s)"
    and comm: "\<And>x y s. P s \<Longrightarrow> x \<noteq> y \<Longrightarrow> f x (f y s) = f y (f x s)"
  shows "P s \<Longrightarrow> distinct xs \<Longrightarrow> distinct ys \<Longrightarrow> set xs = set ys \<Longrightarrow> fold f xs s = fold f ys s"
proof (induction xs arbitrary: ys s)
  case Nil
  then show ?case by simp
next
  case (Cons x xs)
  from Cons.prems(4) have "x \<in> set ys" by auto
  then obtain ys1 ys2 where ys: "ys = ys1 @ x # ys2" by (auto dest: split_list)
  with Cons.prems(3) have nx: "x \<notin> set ys1" "x \<notin> set ys2" "distinct (ys1 @ ys2)" by auto
  have s: "set xs = set (ys1 @ ys2)"
    using Cons.prems(2,4) nx ys by auto
  have "fold f ys s = fold f ys2 (f x (fold f ys1 s))" by (simp add: ys)
  also have "\<dots> = fold f ys2 (fold f ys1 (f x s))"
  proof -
    have "f x (fold f ys1 s) = fold f ys1 (f x s)"
      using Cons.prems(1) nx(1) by (intro fold_move [where P = P and f = f] inv comm)
    then show ?thesis by simp
  qed
  also have "\<dots> = fold f (ys1 @ ys2) (f x s)" by simp
  also have "\<dots> = fold f xs (f x s)"
    using Cons.prems(1,2) nx(3) s by (intro Cons.IH [symmetric] inv) simp_all
  finally show ?case by simp
qed

lemma Sentence_mark_mine_commute:
  "Sentence_mark_mine (Sentence_mark_mine s a) b = Sentence_mark_mine (Sentence_mark_mine s b) a"
proof -
  have "cells s - {a} - {b} = cells s - {b} - {a}" by auto
  then show ?thesis by (simp add: Sentence_mark_mine_def)
qed

lemma Sentence_mark_safe_commute:
  "Sentence_mark_safe (Sentence_mark_safe s a) b = Sentence_mark_safe (Sentence_mark_safe s b) a"
proof -
  have "cells s - {a} - {b} = cells s - {b} - {a}" by auto
  then show ?thesis by (simp add: Sentence_mark_safe_def)
qed

lemma mark_mine_commute: "mark_mine (mark_mine s a) b = mark_mine (mark_mine s b) a"
  by (simp add: mark_mine_def insert_commute Sentence_mark_mine_commute)

lemma mark_safe_commute: "mark_safe (mark_safe s a) b = mark_safe (mark_safe s b) a"
  by (simp add: mark_safe_def insert_commute Sentence_mark_safe_commute)

lemma holds_mark_mine:
  "i < length (knowledge s) \<Longrightarrow> a \<noteq> b \<Longrightarrow> holds (mark_mine s b) i r a = holds s i r a"
  by (cases r) (auto simp: holds_def mark_mine_def Sentence_mark_mine_def)

lemma holds_mark_safe:
  "i < length (knowledge s) \<Longrightarrow> a \<noteq> b \<Longrightarrow> holds (mark_safe s b) i r a = holds s i r a"
  by (cases r) (auto simp: holds_def mark_safe_def Sentence_mark_safe_def)

lemma mines_loop_any_order:
  assumes "i < length (knowledge st)" and "distinct xs" and "distinct ys" and "set xs = set ys"
  shows "fold (\<lambda>c s. if holds s i r c then mark_mine s c else s) xs st =
         fold (\<lambda>c s. if holds s i r c then mark_mine s c else s) ys st"
proof (rule fold_any_order [where P = "\<lambda>s. i < length (knowledge s)"])
  show "\<And>x s. i < length (knowledge s) \<Longrightarrow>
      i < length (knowledge (if holds s i r x then mark_mine s x else s))"
    by simp
  show "\<And>x y s. i < length (knowledge s) \<Longrightarrow> x \<noteq> y \<Longrightarrow>
      (if holds (if holds s i r y then mark_mine s y else s) i r x
       then mark_mine (if holds s i r y then mark_mine s y else s) x
       else (if holds s i r y then mark_mine s y else s)) =
      (if holds (if holds s i r x then mark_mine s x else s) i r y
       then mark_mine (if holds s i r x then mark_mine s x else s) y
       else (if holds s i r x then mark_mine s x else s))"
    by (simp add: holds_mark_mine mark_mine_commute)
qed (use assms in simp_all)

lemma safes_loop_any_order:
  assumes "i < length (knowledge st)" and "distinct xs" and "distinct ys" and "set xs = set ys"
  shows "fold (\<lambda>c s. if holds s i r c then mark_safe s c else s) xs st =
         fold (\<lambda>c s. if holds s i r c then mark_safe s c else s) ys st"
proof (rule fold_any_order [where P = "\<lambda>s. i < length (knowledge s)"])
  show "\<And>x s. i < length (knowledge s) \<Longrightarrow>
      i < length (knowledge (if holds s i r x then mark_safe s x else s))"
    by simp
  show "\<And>x y s. i < length (knowledge s) \<Longrightarrow> x \<noteq> y \<Longrightarrow>
      (if holds (if holds s i r y then mark_safe s y else s) i r x
       then mark_safe (if holds s i r y then mark_safe s y else s) x
       else (if holds s i r y then mark_safe s y else s)) =
      (if holds (if holds s i r x then mark_safe s x else s) i r y
       then mark_safe (if holds s i r x then mark_safe s x else s) y
       else (if holds s i r x then mark_safe s x else s))"
    by (simp add: holds_mark_safe mark_safe_commute)
qed (use assms in simp_all)

lemma mines_loop_length:
  "length (knowledge (fold (\<lambda>c s. if holds s i r c then mark_mine s c else s) xs st))
     = length (knowledge st)"
  by (rule fold_cond_inv [where P = "\<lambda>s. length (knowledge s) = length (knowledge st)"]) simp_all

lemma closure_sentence_any_order:
  assumes "i < length (knowledge st)" and "finite (cells (knowledge st ! i))"
    and "distinct xs" and "set xs = cells (knowledge st ! i)"
  shows "closure_sentence i st =
     (let mines_r = fst (known_mines (knowledge st ! i));
          st1 = fold (\<lambda>c s. if holds s i mines_r c then mark_mine s c else s) xs st;
          safes_r = fst (known_safes (knowledge st1 ! i))
      in fold (\<lambda>c s. if holds s i safes_r c then mark_safe s c else s) xs st1)"
proof -
  let ?zs = "sorted_list_of_set (cells (knowledge st ! i))"
  have z: "distinct ?zs" "set ?zs = set xs"
    using assms(2,4) by simp_all
  have 1: "fold (\<lambda>c s. if holds s i r c then mark_mine s c else s) ?zs st =
           fold (\<lambda>c s. if holds s i r c then mark_mine s c else s) xs st" for r
    using assms(1) z(1) assms(3) z(2) by (rule mines_loop_any_order)
  have 2: "fold (\<lambda>c s. if holds s i r' c then mark_safe s c else s) ?zs
             (fold (\<lambda>c s. if holds s i r c then mark_mine s c else s) xs st) =
           fold (\<lambda>c s. if holds s i r' c then mark_safe s c else s) xs
             (fold (\<lambda>c s. if holds s i r c then mark_mine s c else s) xs st)" for r r'
    using z(1) assms(3) z(2) by (intro safes_loop_any_order) (simp_all add: mines_loop_length assms(1))
  show ?thesis
    by (simp add: closure_sentence_def Let_def 1 2)
qed

section \<open>The closure pass\<close>

lemma own_mines_loop:
  assumes "i < length (knowledge st)"
  shows "length (knowledge (fold (\<lambda>c s. if holds s i Self_cells c then mark_mine s c else s) xs st))
           = length (knowledge st) \<and>
         cells (knowledge (fold (\<lambda>c s. if holds s i Self_cells c then mark_mine s c else s) xs st) ! i)
           = cells (knowledge st ! i) - set xs"
  using assms
proof (induction xs arbitrary: st)
  case Nil
  then show ?case by simp
next
  case (Cons x xs)
  let ?t = "if holds st i Self_cells x then mark_mine st x else st"
  have l: "length (knowledge ?t) = length (knowledge st)" by simp
  have c: "cells (knowledge ?t ! i) = cells (knowledge st ! i) - {x}"
    using Cons.prems by (auto simp: holds_def mark_mine_def Sentence_mark_mine_def)
  from Cons.IH [of ?t] Cons.prems l have
    "length (knowledge (fold (\<lambda>c s. if holds s i Self_cells c then mark_mine s c else s) xs ?t))
           = length (knowledge ?t) \<and>
         cells (knowledge (fold (\<lambda>c s. if holds s i Self_cells c then mark_mine s c else s) xs ?t) ! i)
           = cells (knowledge ?t ! i) - set xs"
    by simp
  then show ?case
    unfolding c l by auto
qed

lemma own_safes_loop:
  assumes "i < length (knowledge st)"
  shows "length (knowledge (fold (\<lambda>c s. if holds s i Self_cells c then mark_safe s c else s) xs st))
           = length (knowledge st) \<and>
         cells (knowledge (fold (\<lambda>c s. if holds s i Self_cells c then mark_safe s c else s) xs st) ! i)
           = cells (knowledge st ! i) - set xs"
  using assms
proof (induction xs arbitrary: st)
  case Nil
  then show ?case by simp
next
  case (Cons x xs)
  let ?t = "if holds st i Self_cells x then mark_safe st x else st"
  have l: "length (knowledge ?t) = length (knowledge st)" by simp
  have c: "cells (knowledge ?t ! i) = cells (knowledge st ! i) - {x}"
    using Cons.prems by (auto simp: holds_def mark_safe_def Sentence_mark_safe_def)
  from Cons.IH [of ?t] Cons.prems l have
    "length (knowledge (fold (\<lambda>c s. if holds s i Self_cells c then mark_safe s c else s) xs ?t))
           = length (knowledge ?t) \<and>
         cells (knowledge (fold (\<lambda>c s. if holds s i Self_cells c then mark_safe s c else s) xs ?t) ! i)
           = cells (knowledge ?t ! i) - set xs"
    by simp
  then show ?case
    unfolding c l by auto
qed

lemma new_set_loop:
  "fold (\<lambda>c s. if holds s i (New_set {}) c then f s c else s) xs st = st"
  by (induction xs) (simp_all add: holds_def)

lemma no_cells_yields_nothing:
  "cells (knowledge st ! i) = {} \<Longrightarrow> yields_nothing st i"
  by (simp add: yields_nothing_def known_mines_def known_safes_def Let_def)

lemma visited_yields_nothing:
  assumes i: "i < length (knowledge st)" and f: "finite (cells (knowledge st ! i))"
  shows "yields_nothing (closure_sentence i st) i"
proof -
  let ?s = "knowledge st ! i"
  let ?xs = "sorted_list_of_set (cells ?s)"
  have xs: "set ?xs = cells ?s" using f by simp
  show ?thesis
  proof (cases "fst (known_mines ?s) = Self_cells")
    case True
    let ?st1 = "fold (\<lambda>c s. if holds s i Self_cells c then mark_mine s c else s) ?xs st"
    from own_mines_loop [OF i, of ?xs] xs
    have 1: "length (knowledge ?st1) = length (knowledge st)" "cells (knowledge ?st1 ! i) = {}"
      by simp_all
    let ?r = "fst (known_safes (knowledge ?st1 ! i))"
    have "cells (knowledge (fold (\<lambda>c s. if holds s i ?r c then mark_safe s c else s) ?xs ?st1) ! i) = {}"
    proof (cases "count (knowledge ?st1 ! i) = 0")
      case True
      then have r: "?r = Self_cells" by (simp add: known_safes_def)
      from own_safes_loop [of i ?st1 ?xs] i 1 show ?thesis unfolding r by simp
    next
      case False
      then have r: "?r = New_set {}" by (simp add: known_safes_def)
      show ?thesis unfolding r new_set_loop by (rule 1)
    qed
    then show ?thesis
      using True by (intro no_cells_yields_nothing) (simp add: closure_sentence_def Let_def)
  next
    case False
    then have m: "fst (known_mines ?s) = New_set {}"
      by (simp add: known_mines_def Let_def split: if_splits)
    show ?thesis
    proof (cases "count ?s = 0")
      case True
      then have "fst (known_safes ?s) = Self_cells" by (simp add: known_safes_def)
      then have "closure_sentence i st = fold (\<lambda>c s. if holds s i Self_cells c then mark_safe s c else s) ?xs st"
        by (simp add: closure_sentence_def Let_def m new_set_loop)
      with own_safes_loop [OF i, of ?xs] xs show ?thesis
        by (intro no_cells_yields_nothing) simp
    next
      case False
      then have "fst (known_safes ?s) = New_set {}" by (simp add: known_safes_def)
      then have "closure_sentence i st = st"
        by (simp add: closure_sentence_def Let_def m new_set_loop)
      then show ?thesis
        using m \<open>fst (known_safes ?s) = New_set {}\<close> by (simp add: yields_nothing_def)
    qed
  qed
qed


text \<open>
  Claim C2: when the closure pass of \<open>add_knowledge\<close> is over, no sentence of
  \<open>knowledge\<close> yields a new fact: for each of them \<open>known_mines()\<close> is a subset of
  \<open>mines\<close> and \<open>known_safes()\<close> a subset of \<open>safes\<close>. The docstring of
  \<open>add_knowledge\<close> asks for the same (``mark any additional cells as safe or as mines
  if it can be concluded based on the AI's knowledge base''), and the source does not
  do it: the loop visits every sentence once and is never repeated. On a 1 by 5 board
  with its one mine at \<open>(0,1)\<close>, after the observation \<open>((0,2), 1)\<close> the second
  observation \<open>((0,4), 0)\<close> visits \<open>({(0,1),(0,3)}, 1)\<close> first, then the new sentence
  \<open>({(0,3)}, 0)\<close>, which marks \<open>(0,3)\<close> safe. The first sentence is now
  \<open>({(0,1)}, 1)\<close> and its \<open>known_mines()\<close> is \<open>{(0,1)}\<close>, but \<open>mines\<close> is empty when
  the pass ends, and still empty when the call returns.
\<close>

theorem C2_closure_pass_leaves_known_mine:
  "consistent \<lparr>board_height = 1, board_width = 5, board_mines = {(0, 1)}\<rparr>
     [((0, 2), 1), ((0, 4), 0)] \<and>
   knowledge (closure_pass (append_sentence (record_move
      (observe_all (init_ai 1 5) [((0, 2), 1)]) (0, 4)) (0, 4) 0)) ! 0
     = \<lparr>cells = {(0, 1)}, count = 1\<rparr> \<and>
   contents \<lparr>cells = {(0, 1)}, count = 1\<rparr>
     (fst (known_mines \<lparr>cells = {(0, 1)}, count = 1\<rparr>)) = {(0, 1)} \<and>
   mines (closure_pass (append_sentence (record_move
      (observe_all (init_ai 1 5) [((0, 2), 1)]) (0, 4)) (0, 4) 0)) = {} \<and>
   \<not> yields_nothing (closure_pass (append_sentence (record_move
      (observe_all (init_ai 1 5) [((0, 2), 1)]) (0, 4)) (0, 4) 0)) 0 \<and>
   mines (observe_all (init_ai 1 5) [((0, 2), 1), ((0, 4), 0)]) = {} \<and>
   knowledge (observe_all (init_ai 1 5) [((0, 2), 1), ((0, 4), 0)])
     = [\<lparr>cells = {(0, 1)}, count = 1\<rparr>, \<lparr>cells = {}, count = 0\<rparr>]"
  by code_simp

section \<open>Soundness of the deductions\<close>

lemma true_mark_mine:
  assumes "true_of L s" and "c \<in> L"
  shows "true_of L (Sentence_mark_mine s c)"
proof (cases "c \<in> cells s")
  case False
  then show ?thesis using assms by (simp add: Sentence_mark_mine_def)
next
  case True
  have fin: "finite (cells s \<inter> L)" using assms(1) by (simp add: true_of_def)
  have "c \<in> cells s \<inter> L" using True assms(2) by simp
  then have pos: "0 < card (cells s \<inter> L)" using fin by (auto simp: card_gt_0_iff)
  have "(cells s - {c}) \<inter> L = (cells s \<inter> L) - {c}" by auto
  then have "card ((cells s - {c}) \<inter> L) = card (cells s \<inter> L) - 1"
    using fin \<open>c \<in> cells s \<inter> L\<close> by simp
  then show ?thesis
    using True assms(1) pos by (simp add: Sentence_mark_mine_def true_of_def)
qed

lemma true_mark_safe:
  assumes "true_of L s" and "c \<notin> L"
  shows "true_of L (Sentence_mark_safe s c)"
proof -
  have "(cells s - {c}) \<inter> L = cells s \<inter> L" using assms(2) by auto
  then show ?thesis using assms(1) by (simp add: Sentence_mark_safe_def true_of_def)
qed

lemma sound_mark_mine: "sound L st \<Longrightarrow> c \<in> L \<Longrightarrow> sound L (mark_mine st c)"
  by (auto simp: sound_def mark_mine_def list_all_iff intro: true_mark_mine)

lemma sound_mark_safe: "sound L st \<Longrightarrow> c \<notin> L \<Longrightarrow> sound L (mark_safe st c)"
  by (auto simp: sound_def mark_safe_def list_all_iff intro: true_mark_safe)

lemma cells_mark_mine_subset:
  "i < length (knowledge st) \<Longrightarrow> cells (knowledge (mark_mine st c) ! i) \<subseteq> cells (knowledge st ! i)"
  by (auto simp: mark_mine_def Sentence_mark_mine_def)

lemma cells_mark_safe_subset:
  "i < length (knowledge st) \<Longrightarrow> cells (knowledge (mark_safe st c) ! i) \<subseteq> cells (knowledge st ! i)"
  by (auto simp: mark_safe_def Sentence_mark_safe_def)

lemma known_mines_all_mines:
  assumes "true_of L s" and "fst (known_mines s) = Self_cells"
  shows "cells s \<subseteq> L"
proof -
  from assms(2) have "int (card (cells s)) = count s"
    by (simp add: known_mines_def Let_def split: if_splits)
  with assms(1) have "card (cells s \<inter> L) = card (cells s)" "finite (cells s)"
    by (simp_all add: true_of_def)
  then have "cells s \<inter> L = cells s"
    by (intro card_subset_eq) auto
  then show ?thesis by auto
qed

lemma known_safes_no_mines:
  assumes "true_of L s" and "fst (known_safes s) = Self_cells"
  shows "cells s \<inter> L = {}"
proof -
  from assms(2) have "count s = 0"
    by (simp add: known_safes_def Let_def split: if_splits)
  with assms(1) have "finite (cells s \<inter> L)" "card (cells s \<inter> L) = 0"
    by (simp_all add: true_of_def)
  then show ?thesis by simp
qed

lemma sound_mines_loop:
  assumes "sound L st" and "i < length (knowledge st)"
    and "r = Self_cells \<longrightarrow> cells (knowledge st ! i) \<subseteq> L" and "r = Self_cells \<or> r = New_set {}"
  shows "sound L (fold (\<lambda>c s. if holds s i r c then mark_mine s c else s) xs st) \<and>
         length (knowledge (fold (\<lambda>c s. if holds s i r c then mark_mine s c else s) xs st))
           = length (knowledge st)"
proof -
  let ?P = "\<lambda>s. sound L s \<and> length (knowledge s) = length (knowledge st) \<and>
              (r = Self_cells \<longrightarrow> cells (knowledge s ! i) \<subseteq> L)"
  have "?P (fold (\<lambda>c s. if holds s i r c then mark_mine s c else s) xs st)"
  proof (rule fold_cond_inv [where P = ?P])
    show "?P st" using assms by simp
  next
    fix c s assume p: "?P s" and h: "holds s i r c"
    from h assms(4) have r: "r = Self_cells" by (auto simp: holds_def)
    with h p have "c \<in> L" by (auto simp: holds_def)
    moreover have "cells (knowledge (mark_mine s c) ! i) \<subseteq> cells (knowledge s ! i)"
      using p assms(2) by (intro cells_mark_mine_subset) simp
    ultimately show "?P (mark_mine s c)"
      using p r by (auto intro: sound_mark_mine)
  qed
  then show ?thesis by simp
qed

lemma sound_safes_loop:
  assumes "sound L st" and "i < length (knowledge st)"
    and "r = Self_cells \<longrightarrow> cells (knowledge st ! i) \<inter> L = {}" and "r = Self_cells \<or> r = New_set {}"
  shows "sound L (fold (\<lambda>c s. if holds s i r c then mark_safe s c else s) xs st) \<and>
         length (knowledge (fold (\<lambda>c s. if holds s i r c then mark_safe s c else s) xs st))
           = length (knowledge st)"
proof -
  let ?P = "\<lambda>s. sound L s \<and> length (knowledge s) = length (knowledge st) \<and>
              (r = Self_cells \<longrightarrow> cells (knowledge s ! i) \<inter> L = {})"
  have "?P (fold (\<lambda>c s. if holds s i r c then mark_safe s c else s) xs st)"
  proof (rule fold_cond_inv [where P = ?P])
    show "?P st" using assms by simp
  next
    fix c s assume p: "?P s" and h: "holds s i r c"
    from h assms(4) have r: "r = Self_cells" by (auto simp: holds_def)
    with h p have "c \<notin> L" by (auto simp: holds_def)
    moreover have "cells (knowledge (mark_safe s c) ! i) \<subseteq> cells (knowledge s ! i)"
      using p assms(2) by (intro cells_mark_safe_subset) simp
    ultimately show "?P (mark_safe s c)"
      using p r by (auto intro: sound_mark_safe)
  qed
  then show ?thesis by simp
qed

lemma known_mines_cases: "fst (known_mines s) = Self_cells \<or> fst (known_mines s) = New_set {}"
  by (simp add: known_mines_def Let_def)

lemma known_safes_cases: "fst (known_safes s) = Self_cells \<or> fst (known_safes s) = New_set {}"
  by (simp add: known_safes_def Let_def)

lemma sound_data_model: "sound L st \<Longrightarrow> list_all data_model (knowledge st)"
  by (auto simp: sound_def true_of_def data_model_def list_all_iff)

lemma sound_nth: "sound L st \<Longrightarrow> i < length (knowledge st) \<Longrightarrow> true_of L (knowledge st ! i)"
  by (simp add: sound_def list_all_length)

lemma sound_closure_sentence:
  assumes "sound L st" and "i < length (knowledge st)"
  shows "sound L (closure_sentence i st) \<and>
         length (knowledge (closure_sentence i st)) = length (knowledge st)"
proof -
  let ?r = "fst (known_mines (knowledge st ! i))"
  let ?xs = "sorted_list_of_set (cells (knowledge st ! i))"
  let ?st1 = "fold (\<lambda>c s. if holds s i ?r c then mark_mine s c else s) ?xs st"
  let ?r' = "fst (known_safes (knowledge ?st1 ! i))"
  have 1: "sound L ?st1 \<and> length (knowledge ?st1) = length (knowledge st)"
    using assms
    by (intro sound_mines_loop known_mines_cases impI known_mines_all_mines sound_nth)
  then have i1: "i < length (knowledge ?st1)" using assms(2) by simp
  have "sound L (fold (\<lambda>c s. if holds s i ?r' c then mark_safe s c else s) ?xs ?st1) \<and>
        length (knowledge (fold (\<lambda>c s. if holds s i ?r' c then mark_safe s c else s) ?xs ?st1))
          = length (knowledge ?st1)"
    using 1 i1
    by (intro sound_safes_loop known_safes_cases impI known_safes_no_mines sound_nth) simp_all
  then show ?thesis
    using 1 by (simp add: closure_sentence_def Let_def)
qed

lemma sound_closure_pass:
  assumes "sound L st"
  shows "sound L (closure_pass st)"
proof -
  let ?P = "\<lambda>s. sound L s \<and> length (knowledge s) = length (knowledge st)"
  have "?P (fold closure_sentence [0..<length (knowledge st)] st)"
  proof (rule fold_inv [where P = ?P])
    show "?P st" using assms by simp
  next
    fix i s assume "i \<in> set [0..<length (knowledge st)]" and p: "?P s"
    then have "i < length (knowledge s)" by simp
    with p sound_closure_sentence [of L s i] show "?P (closure_sentence i s)" by simp
  qed
  then show ?thesis by (simp add: closure_pass_def)
qed

lemma true_infer:
  assumes "true_of L A" and "true_of L B" and "D \<in> set (infer A B)"
  shows "true_of L D"
proof -
  from assms(3) have sub: "cells A \<subseteq> cells B"
    and D: "D = \<lparr>cells = cells B - cells A, count = count B - count A\<rparr>"
    by (auto simp: infer_def split: if_splits)
  have fin: "finite (cells A \<inter> L)" "finite (cells B)" using assms(1,2) by (simp_all add: true_of_def)
  have "(cells B - cells A) \<inter> L = (cells B \<inter> L) - (cells A \<inter> L)" by auto
  moreover have "cells A \<inter> L \<subseteq> cells B \<inter> L" using sub by auto
  ultimately have "card ((cells B - cells A) \<inter> L) = card (cells B \<inter> L) - card (cells A \<inter> L)"
    using fin by (simp add: card_Diff_subset)
  moreover have "card (cells A \<inter> L) \<le> card (cells B \<inter> L)"
    using \<open>cells A \<inter> L \<subseteq> cells B \<inter> L\<close> fin by (intro card_mono) auto
  ultimately show ?thesis
    using assms(1,2) fin by (simp add: D true_of_def)
qed

lemma sound_derivation_step:
  assumes "sound L st"
  shows "sound L (derivation_step st)"
proof -
  have "true_of L D" if "D \<in> set (tempKnowledge (knowledge st))" for D
  proof -
    from that obtain A B where "A \<in> set (knowledge st)" "B \<in> set (knowledge st)" "D \<in> set (infer A B)"
      by (auto simp: tempKnowledge_def)
    with assms show ?thesis by (auto simp: sound_def list_all_iff intro: true_infer)
  qed
  then show ?thesis
    using assms by (auto simp: sound_def derivation_step_def list_all_iff)
qed

lemma sound_append_sentence:
  assumes "sound L st" and "k = int (card {d \<in> board st. chebyshev c d = 1 \<and> d \<in> L})"
  shows "sound L (append_sentence st c k)"
proof -
  have "neighbours_of st c \<inter> L = {d \<in> board st. chebyshev c d = 1 \<and> d \<in> L}"
    using assms(1) by (auto simp: neighbours_of_eq sound_def)
  then have "true_of L \<lparr>cells = neighbours_of st c, count = k\<rparr>"
    using assms(2) by (simp add: true_of_def finite_neighbours_of)
  then show ?thesis
    using assms(1) by (simp add: sound_def append_sentence_def)
qed

lemma board_record_move [simp]: "board (record_move st c) = board st"
  by (simp add: board_def record_move_def mark_safe_def)

lemma sound_add_knowledge:
  assumes "sound L st" and "c \<notin> L" and "k = int (card {d \<in> board st. chebyshev c d = 1 \<and> d \<in> L})"
  shows "sound L (add_knowledge st c k)"
proof -
  have "sound L (st\<lparr>moves_made := insert c (moves_made st)\<rparr>)"
    using assms(1) by (simp add: sound_def)
  then have "sound L (record_move st c)"
    unfolding record_move_def using assms(2) by (rule sound_mark_safe)
  then have "sound L (append_sentence (record_move st c) c k)"
    by (rule sound_append_sentence) (simp add: assms(3))
  then show ?thesis
    unfolding add_knowledge_def by (intro sound_derivation_step sound_closure_pass)
qed

section \<open>Consistent observations\<close>

lemma nearby_visit_counted:
  "nearby_visit g c i j cnt = (if counted g c (i, j) then cnt + 1 else cnt)"
  by (auto simp: nearby_visit_def counted_def)

lemma count_inner:
  "fold (nearby_visit g c i) js cnt =
     cnt + int (length (filter (counted g c) (map (Pair i) js)))"
  by (induction js arbitrary: cnt) (simp_all add: nearby_visit_counted)

lemma count_outer:
  "fold (\<lambda>i. fold (nearby_visit g c i) js) is cnt =
     cnt + int (length (filter (counted g c) (concat (map (\<lambda>i. map (Pair i) js) is))))"
proof (induction "is" arbitrary: cnt)
  case Nil
  then show ?case by simp
next
  case (Cons i "is")
  have "fold (\<lambda>i. fold (nearby_visit g c i) js) (i # is) cnt =
        fold (\<lambda>i. fold (nearby_visit g c i) js) is (fold (nearby_visit g c i) js cnt)"
    by simp
  also have "\<dots> = fold (nearby_visit g c i) js cnt +
      int (length (filter (counted g c) (concat (map (\<lambda>i. map (Pair i) js) is))))"
    by (rule Cons.IH)
  also have "\<dots> = cnt + int (length (filter (counted g c) (map (Pair i) js))) +
      int (length (filter (counted g c) (concat (map (\<lambda>i. map (Pair i) js) is))))"
    by (simp only: count_inner)
  also have "\<dots> = cnt +
      int (length (filter (counted g c) (concat (map (\<lambda>i. map (Pair i) js) (i # is)))))"
    by simp
  finally show ?case .
qed

lemma distinct_window:
  "distinct xs \<Longrightarrow> distinct ys \<Longrightarrow> distinct (concat (map (\<lambda>i. map (Pair i) ys) xs))"
  by (induction xs) (auto simp: distinct_map inj_on_def)

lemma set_window: "set (concat (map (\<lambda>i. map (Pair i) ys) xs)) = set xs \<times> set ys"
  by auto

lemma chebyshev_window:
  "chebyshev c d = 1 \<longleftrightarrow>
     d \<noteq> c \<and> fst d \<in> {fst c - 1..fst c + 1} \<and> snd d \<in> {snd c - 1..snd c + 1}"
  by (cases c; cases d) (auto simp: chebyshev_def max_def)

lemma nearby_mines_card:
  "nearby_mines g c =
     int (card {d \<in> {0..board_height g - 1} \<times> {0..board_width g - 1}.
            chebyshev c d = 1 \<and> d \<in> board_mines g})"
proof -
  let ?W = "concat (map (\<lambda>i. map (Pair i) [snd c - 1..snd c + 1]) [fst c - 1..fst c + 1])"
  have d: "distinct (filter (counted g c) ?W)"
    by (intro distinct_filter distinct_window) simp_all
  have "set (filter (counted g c) ?W) = {d \<in> {0..board_height g - 1} \<times> {0..board_width g - 1}.
            chebyshev c d = 1 \<and> d \<in> board_mines g}"
    unfolding set_filter set_window by (auto simp: chebyshev_window counted_def)
  then have "card {d \<in> {0..board_height g - 1} \<times> {0..board_width g - 1}.
            chebyshev c d = 1 \<and> d \<in> board_mines g} = length (filter (counted g c) ?W)"
    using distinct_card [OF d] by simp
  then show ?thesis
    by (simp add: nearby_mines_def count_outer)
qed

lemma board_add_knowledge: "board (add_knowledge st c n) = board st"
proof -
  let ?P = "\<lambda>s. height s = height st \<and> width s = width st"
  have mm: "?P (mark_mine s c)" if "?P s" for s c using that by (simp add: mark_mine_def)
  have ms: "?P (mark_safe s c)" if "?P s" for s c using that by (simp add: mark_safe_def)
  have cs: "?P (closure_sentence i s)" if "?P s" for i s
  proof -
    have 1: "?P (fold (\<lambda>c s. if holds s i r c then mark_mine s c else s) xs s)" for r xs
      using that mm by (rule fold_cond_inv [where P = ?P])
    have "?P (fold (\<lambda>c s. if holds s i r' c then mark_safe s c else s) ys
                 (fold (\<lambda>c s. if holds s i r c then mark_mine s c else s) xs s))" for r r' xs ys
      using 1 ms by (rule fold_cond_inv [where P = ?P])
    then show ?thesis by (simp add: closure_sentence_def Let_def)
  qed
  have cp: "?P (closure_pass s)" if "?P s" for s
    unfolding closure_pass_def using that cs by (rule fold_inv [where P = ?P])
  have "?P (append_sentence (record_move st c) c n)"
    by (simp add: append_sentence_def record_move_def mark_safe_def)
  then have "?P (closure_pass (append_sentence (record_move st c) c n))"
    by (rule cp)
  then show ?thesis
    by (simp add: add_knowledge_def derivation_step_def board_def)
qed

lemma sound_observe_all:
  assumes "sound (board_mines g) st" 
    and "board st = {0..board_height g - 1} \<times> {0..board_width g - 1}"
    and "list_all (\<lambda>(c, n). c \<notin> board_mines g \<and> n = nearby_mines g c) obs"
  shows "sound (board_mines g) (observe_all st obs)"
  using assms
proof (induction obs arbitrary: st)
  case Nil
  then show ?case by simp
next
  case (Cons ob obs)
  obtain c n where ob: "ob = (c, n)" by (cases ob)
  from Cons.prems(3) ob have c: "c \<notin> board_mines g" and n: "n = nearby_mines g c"
    and rest: "list_all (\<lambda>(c, n). c \<notin> board_mines g \<and> n = nearby_mines g c) obs"
    by simp_all
  have "sound (board_mines g) (add_knowledge st c n)"
    using Cons.prems(1) c by (rule sound_add_knowledge) (simp add: n nearby_mines_card Cons.prems(2))
  moreover have "board (add_knowledge st c n) = {0..board_height g - 1} \<times> {0..board_width g - 1}"
    using Cons.prems(2) by (simp add: board_add_knowledge)
  ultimately have "sound (board_mines g) (observe_all (add_knowledge st c n) obs)"
    using rest by (rule Cons.IH)
  then show ?case by (simp add: ob)
qed

lemma sound_init: "sound L (init_ai h w)"
  by (simp add: sound_def init_ai_def)

lemma consistent_take: "consistent g obs \<Longrightarrow> consistent g (take k obs)"
  by (auto simp: consistent_def list_all_iff take_map [symmetric] dest: in_set_takeD)

text \<open>
  Claim C1: for every sequence of observations consistent with a fixed mine layout
  (no probed cell is a mine, no cell is probed twice, every count is the number of
  mines among the valid neighbours of the probed cell, as \<open>nearby_mines\<close> reports it),
  after every \<open>add_knowledge\<close> call of the sequence, on an engine created with the
  dimensions of the board, every cell in \<open>mines\<close> is a mine of the layout and no cell
  in \<open>safes\<close> is.
\<close>

theorem C1_soundness:
  assumes "consistent g obs"
  shows "mines (observe_all (init_ai (board_height g) (board_width g)) (take k obs))
           \<subseteq> board_mines g \<and>
         safes (observe_all (init_ai (board_height g) (board_width g)) (take k obs))
           \<inter> board_mines g = {}"
proof -
  from assms have "consistent g (take k obs)" by (rule consistent_take)
  then have "list_all (\<lambda>(c, n). c \<notin> board_mines g \<and> n = nearby_mines g c) (take k obs)"
    by (simp add: consistent_def)
  then have "sound (board_mines g)
      (observe_all (init_ai (board_height g) (board_width g)) (take k obs))"
    by (intro sound_observe_all sound_init) (simp_all add: board_def init_ai_def)
  then show ?thesis by (simp add: sound_def)
qed

theorem C1_soundness_witness:
  "consistent \<lparr>board_height = 1, board_width = 5, board_mines = {(0, 1)}\<rparr>
     [((0, 2), 1), ((0, 4), 0), ((0, 3), 0)] \<and>
   mines (observe_all (init_ai 1 5) (take 3 [((0, 2), 1), ((0, 4), 0), ((0, 3), 0)]))
     = {(0, 1)} \<and>
   mines (observe_all (init_ai 1 5) (take 3 [((0, 2), 1), ((0, 4), 0), ((0, 3), 0)]))
     \<subseteq> {(0, 1)} \<and>
   safes (observe_all (init_ai 1 5) (take 3 [((0, 2), 1), ((0, 4), 0), ((0, 3), 0)]))
     \<inter> {(0, 1)} = {}"
proof -
  let ?g = "\<lparr>board_height = 1, board_width = 5, board_mines = {(0, 1)}\<rparr>"
  have h: "consistent ?g [((0, 2), 1), ((0, 4), 0), ((0, 3), 0)]"
    by code_simp
  have m: "mines (observe_all (init_ai 1 5) (take 3 [((0, 2), 1), ((0, 4), 0), ((0, 3), 0)]))
     = {(0, 1)}"
    by code_simp
  from C1_soundness [OF h, of 3] h m show ?thesis by simp
qed

text \<open>
  Claim C3: for every sequence of observations consistent with a fixed mine layout,
  after every \<open>add_knowledge\<close> call of the sequence \<open>safes\<close> and \<open>mines\<close> are
  disjoint.
\<close>

theorem C3_disjoint:
  assumes "consistent g obs"
  shows "safes (observe_all (init_ai (board_height g) (board_width g)) (take k obs)) \<inter>
         mines (observe_all (init_ai (board_height g) (board_width g)) (take k obs)) = {}"
proof -
  from assms have "consistent g (take k obs)" by (rule consistent_take)
  then have "list_all (\<lambda>(c, n). c \<notin> board_mines g \<and> n = nearby_mines g c) (take k obs)"
    by (simp add: consistent_def)
  then have "sound (board_mines g)
      (observe_all (init_ai (board_height g) (board_width g)) (take k obs))"
    by (intro sound_observe_all sound_init) (simp_all add: board_def init_ai_def)
  then show ?thesis by (auto simp: sound_def)
qed

theorem C3_disjoint_witness:
  "consistent \<lparr>board_height = 2, board_width = 5, board_mines = {(1, 0), (1, 2)}\<rparr>
     [((0, 1), 2), ((0, 0), 1), ((0, 4), 0)] \<and>
   safes (observe_all (init_ai 2 5) (take 2 [((0, 1), 2), ((0, 0), 1), ((0, 4), 0)])) \<inter>
   mines (observe_all (init_ai 2 5) (take 2 [((0, 1), 2), ((0, 0), 1), ((0, 4), 0)])) = {}"
proof -
  let ?g = "\<lparr>board_height = 2, board_width = 5, board_mines = {(1, 0), (1, 2)}\<rparr>"
  have h: "consistent ?g [((0, 1), 2), ((0, 0), 1), ((0, 4), 0)]"
    by code_simp
  from C3_disjoint [OF h, of 2] h show ?thesis by simp
qed

end
